theory Spec2Isabelle
  imports Complex_Main "HOL-Library.Log_Nat" "HOL-Library.AList"
begin

section \<open>Python values used by the calculator core\<close>

text \<open>
  Exceptions of the source are values: every function that can raise returns
  \<open>py_error + 'a\<close>, with \<open>Inl\<close> carrying the exception class.
\<close>

datatype py_error =
  ValueError | OverflowError | TypeError | AttributeError | ZeroDivisionError | InvalidRulesError

definition pybind :: "py_error + 'a \<Rightarrow> ('a \<Rightarrow> py_error + 'b) \<Rightarrow> py_error + 'b" where
  "pybind m f = (case m of Inl e \<Rightarrow> Inl e | Inr x \<Rightarrow> f x)"

subsection \<open>Binary64 floats\<close>

text \<open>
  A Python float is an IEEE 754 binary64 number. A finite float is kept as the
  rational number it denotes (the two zeros are identified: no operation modelled
  here tells them apart); the infinities and NaN are separate values.
\<close>

datatype pyfloat = Finite rat | PInf | NInf | NaN

text \<open>\<open>binary_exponent q\<close> is \<open>\<lfloor>log\<^sub>2 q\<rfloor>\<close> for a positive rational \<open>q\<close>.\<close>

definition binary_exponent :: "rat \<Rightarrow> int" where
  "binary_exponent q =
     (if 1 \<le> q then bitlen \<lfloor>q\<rfloor> - 1 else - bitlen (\<lceil>1 / q\<rceil> - 1))"

definition round_half_even :: "rat \<Rightarrow> int" where
  "round_half_even x =
     (let f = \<lfloor>x\<rfloor>; d = x - of_int f
      in if d < 1 / 2 then f
         else if 1 / 2 < d then f + 1
         else if even f then f else f + 1)"

text \<open>
  Rounding of an exact result to binary64, to nearest with ties to even: 53
  significant bits, least exponent \<open>-1022\<close> (below it the spacing stays that of the
  subnormal numbers), and an infinity once the rounded magnitude reaches \<open>2^1024\<close>.
\<close>

definition round_double :: "rat \<Rightarrow> pyfloat" where
  "round_double q =
     (if q = 0 then Finite 0
      else
        let a = \<bar>q\<bar>;
            e = max (binary_exponent a) (- 1022);
            ulp = 2 powi (e - 52);
            r = of_int (round_half_even (a / ulp)) * ulp
        in if 2 ^ 1024 \<le> r then (if 0 < q then PInf else NInf)
           else Finite (if 0 < q then r else - r))"

text \<open>\<open>float(i)\<close> for an int: correctly rounded, OverflowError beyond the range.\<close>

definition float_of_int :: "int \<Rightarrow> py_error + pyfloat" where
  "float_of_int i =
     (case round_double (of_int i) of
        Finite r \<Rightarrow> Inr (Finite r)
      | _ \<Rightarrow> Inl OverflowError)"

text \<open>\<open>x + y\<close> on floats: never raises, overflows to an infinity.\<close>

fun float_add :: "pyfloat \<Rightarrow> pyfloat \<Rightarrow> pyfloat" where
  "float_add (Finite a) (Finite b) = round_double (a + b)"
| "float_add NaN y = NaN"
| "float_add x NaN = NaN"
| "float_add PInf NInf = NaN"
| "float_add NInf PInf = NaN"
| "float_add PInf y = PInf"
| "float_add NInf y = NInf"
| "float_add (Finite a) y = y"

text \<open>\<open>x / y\<close> on floats: ZeroDivisionError for a zero divisor, checked first.\<close>

fun float_truediv :: "pyfloat \<Rightarrow> pyfloat \<Rightarrow> py_error + pyfloat" where
  "float_truediv x (Finite b) =
     (if b = 0 then Inl ZeroDivisionError
      else case x of
        Finite a \<Rightarrow> Inr (round_double (a / b))
      | PInf \<Rightarrow> Inr (if 0 < b then PInf else NInf)
      | NInf \<Rightarrow> Inr (if 0 < b then NInf else PInf)
      | NaN \<Rightarrow> Inr NaN)"
| "float_truediv (Finite a) PInf = Inr (Finite 0)"
| "float_truediv (Finite a) NInf = Inr (Finite 0)"
| "float_truediv x y = Inr NaN"


definition truncate_toward_zero :: "rat \<Rightarrow> int" where
  "truncate_toward_zero r = (if 0 \<le> r then \<lfloor>r\<rfloor> else \<lceil>r\<rceil>)"

text \<open>\<open>int(x)\<close> for a float: truncation; an infinity or NaN cannot be converted.\<close>

fun int_of_float :: "pyfloat \<Rightarrow> py_error + int" where
  "int_of_float (Finite r) = Inr (truncate_toward_zero r)"
| "int_of_float PInf = Inl OverflowError"
| "int_of_float NInf = Inl OverflowError"
| "int_of_float NaN = Inl ValueError"

text \<open>
  Mixed arithmetic: the int operand is converted with \<open>float(i)\<close> first, then the
  float operation is applied.
\<close>

definition add_int_float :: "int \<Rightarrow> pyfloat \<Rightarrow> py_error + pyfloat" where
  "add_int_float i x = pybind (float_of_int i) (\<lambda>y. Inr (float_add y x))"

definition add_float_int :: "pyfloat \<Rightarrow> int \<Rightarrow> py_error + pyfloat" where
  "add_float_int x i = pybind (float_of_int i) (\<lambda>y. Inr (float_add x y))"

definition truediv_int_float :: "int \<Rightarrow> pyfloat \<Rightarrow> py_error + pyfloat" where
  "truediv_int_float i x = pybind (float_of_int i) (\<lambda>y. float_truediv y x)"

section \<open>engine.py: the Special Pharmacy formula\<close>

definition R1_MIN :: int where "R1_MIN = 30"
definition R1_MAX :: int where "R1_MAX = 150"
definition R2_MIN :: int where "R2_MIN = 4"
definition R2_MAX :: int where "R2_MAX = 10"

definition special_pharmacy ::
  "int \<Rightarrow> int \<Rightarrow> int \<Rightarrow> int \<Rightarrow> int \<Rightarrow> int \<Rightarrow> int \<Rightarrow> int \<Rightarrow> int \<Rightarrow> py_error + int" where
  "special_pharmacy int_stat des_stat sor_stat job_level base_level
       potion_research_level chemical_protection_level rand_30_150 rand_4_10 =
     (if \<not> (R1_MIN \<le> rand_30_150 \<and> rand_30_150 \<le> R1_MAX) then Inl ValueError
      else if \<not> (R2_MIN \<le> rand_4_10 \<and> rand_4_10 \<le> R2_MAX) then Inl ValueError
      else
        pybind (truediv_int_float des_stat (Finite 2)) (\<lambda>half_des.
        pybind (add_int_float int_stat half_des) (\<lambda>v1.
        pybind (add_float_int v1 sor_stat) (\<lambda>v2.
        pybind (add_float_int v2 job_level) (\<lambda>v3.
        pybind (add_float_int v3 rand_30_150) (\<lambda>v4.
        pybind (add_float_int v4 (base_level - 100)) (\<lambda>v5.
        pybind (add_float_int v5 (potion_research_level * 5)) (\<lambda>v6.
        pybind (add_float_int v6 (chemical_protection_level * rand_4_10)) (\<lambda>value.
        int_of_float value)))))))))"

section \<open>stats.py: enumeration and buckets\<close>

definition SPECIAL_PHARMACY_R1_TOTAL :: int where
  "SPECIAL_PHARMACY_R1_TOTAL = R1_MAX - R1_MIN + 1"

definition SPECIAL_PHARMACY_R2_TOTAL :: int where
  "SPECIAL_PHARMACY_R2_TOTAL = R2_MAX - R2_MIN + 1"

definition PHARMACY_SPECIAL_TOTAL_COMBOS :: int where
  "PHARMACY_SPECIAL_TOTAL_COMBOS = SPECIAL_PHARMACY_R1_TOTAL * SPECIAL_PHARMACY_R2_TOTAL"

text \<open>A list comprehension over calls that may raise stops at the first exception.\<close>

fun collect :: "(py_error + 'a) list \<Rightarrow> py_error + 'a list" where
  "collect [] = Inr []"
| "collect (m # ms) =
     (case m of
        Inl e \<Rightarrow> Inl e
      | Inr x \<Rightarrow> (case collect ms of Inl e \<Rightarrow> Inl e | Inr xs \<Rightarrow> Inr (x # xs)))"

definition enumerate_special_pharmacy_results ::
  "int \<Rightarrow> int \<Rightarrow> int \<Rightarrow> int \<Rightarrow> int \<Rightarrow> int \<Rightarrow> int \<Rightarrow> py_error + int list" where
  "enumerate_special_pharmacy_results int_stat des_stat sor_stat job_level base_level
       potion_research_level chemical_protection_level =
     collect
       [special_pharmacy int_stat des_stat sor_stat job_level base_level
          potion_research_level chemical_protection_level r1 r2.
        r1 \<leftarrow> [R1_MIN..R1_MAX], r2 \<leftarrow> [R2_MIN..R2_MAX]]"

definition labels :: "string list" where
  "labels = [''MAX'', ''MAX-3'', ''MAX-4'', ''MAX-5'', ''MAX-6'']"

text \<open>\<open>counts[k] += 1\<close> on a dict kept as an association list in insertion order.\<close>

definition incr :: "string \<Rightarrow> (string \<times> int) list \<Rightarrow> (string \<times> int) list" where
  "incr k counts = AList.map_entry k (\<lambda>v. v + 1) counts"

fun count_loop ::
  "int \<Rightarrow> int \<Rightarrow> int \<Rightarrow> int \<Rightarrow> int list \<Rightarrow> (string \<times> int) list \<Rightarrow> (string \<times> int) list" where
  "count_loop t1 t2 t3 t4 [] counts = counts"
| "count_loop t1 t2 t3 t4 (val # rest) counts =
     count_loop t1 t2 t3 t4 rest
       (if val \<ge> t1 then incr ''MAX'' counts
        else if val \<ge> t2 then incr ''MAX-3'' counts
        else if val \<ge> t3 then incr ''MAX-4'' counts
        else if val \<ge> t4 then incr ''MAX-5'' counts
        else incr ''MAX-6'' counts)"

text \<open>
  \<open>v / PHARMACY_SPECIAL_TOTAL_COMBOS\<close> on two ints is the quotient rounded to
  binary64. It raises only for a zero divisor (the divisor is the constant 847) or
  for a quotient beyond the float range, which a count of list elements cannot
  reach; \<open>round_double\<close> gives an infinity there.
\<close>

definition int_truediv :: "int \<Rightarrow> int \<Rightarrow> pyfloat" where
  "int_truediv a b = round_double (of_int a / of_int b)"

definition pharmacy_special_probability_by_ranges ::
  "int list \<Rightarrow> int \<Rightarrow> (string \<times> int \<times> pyfloat) list" where
  "pharmacy_special_probability_by_ranges results difficulty =
     (let counts = map (\<lambda>k. (k, 0)) labels;
          t1 = difficulty + 400;
          t2 = difficulty + 300;
          t3 = difficulty + 100;
          t4 = difficulty;
          counts' = count_loop t1 t2 t3 t4 results counts
      in map (\<lambda>(k, v). (k, (v, int_truediv v PHARMACY_SPECIAL_TOTAL_COMBOS))) counts')"

section \<open>Python strings and JSON values\<close>

text \<open>
  A \<open>str\<close> is kept as the list of the bytes of its UTF-8 encoding, so a character of
  ASCII is one \<open>char\<close> below 128 and every other character is a run of \<open>char\<close>s from 128
  on. Splitting at an ASCII character, removing spaces and comparing strings work on
  the bytes as they do on the characters.
\<close>

definition is_ascii :: "string \<Rightarrow> bool" where
  "is_ascii s = list_all (\<lambda>c. (of_char c :: nat) < 128) s"

text \<open>The whitespace that \<open>int()\<close> strips from an ASCII string: tab to carriage return, and space.\<close>

definition is_space :: "char \<Rightarrow> bool" where
  "is_space c = (let n = (of_char c :: nat) in (9 \<le> n \<and> n \<le> 13) \<or> n = 32)"

definition is_digit :: "char \<Rightarrow> bool" where
  "is_digit c = (let n = (of_char c :: nat) in 48 \<le> n \<and> n \<le> 57)"

definition digit_val :: "char \<Rightarrow> nat" where
  "digit_val c = of_char c - 48"

definition strip :: "string \<Rightarrow> string" where
  "strip s = rev (dropWhile is_space (rev (dropWhile is_space s)))"

text \<open>
  The digits of an \<open>int()\<close> literal after its first digit: more digits, each of them
  optionally preceded by one underscore.
\<close>

fun digits_value :: "string \<Rightarrow> nat \<Rightarrow> nat option" where
  "digits_value [] acc = Some acc"
| "digits_value [c] acc = (if is_digit c then Some (10 * acc + digit_val c) else None)"
| "digits_value (c # d # ds) acc =
     (if is_digit c then digits_value (d # ds) (10 * acc + digit_val c)
      else if c = CHR ''_'' \<and> is_digit d then digits_value ds (10 * acc + digit_val d)
      else None)"

text \<open>
  The interpreter refuses to convert a string of more than \<open>sys.int_max_str_digits\<close>
  digits (leading zeros count, underscores do not); 4300 is its default.
\<close>

definition int_max_str_digits :: nat where
  "int_max_str_digits = 4300"

definition nat_of_digits :: "string \<Rightarrow> nat option" where
  "nat_of_digits s =
     (case s of
        [] \<Rightarrow> None
      | c # cs \<Rightarrow>
          if is_digit c \<and> length (filter is_digit s) \<le> int_max_str_digits
          then digits_value cs (digit_val c)
          else None)"

text \<open>
  \<open>int(s)\<close> for an ASCII string: surrounding whitespace, an optional sign, the digits.
\<close>

definition py_int_of_ascii :: "string \<Rightarrow> py_error + int" where
  "py_int_of_ascii s =
     (let t = strip s in
      case t of
        [] \<Rightarrow> Inl ValueError
      | c # cs \<Rightarrow>
          if c = CHR ''-'' then
            (case nat_of_digits cs of None \<Rightarrow> Inl ValueError | Some n \<Rightarrow> Inr (- int n))
          else if c = CHR ''+'' then
            (case nat_of_digits cs of None \<Rightarrow> Inl ValueError | Some n \<Rightarrow> Inr (int n))
          else
            (case nat_of_digits t of None \<Rightarrow> Inl ValueError | Some n \<Rightarrow> Inr (int n)))"

text \<open>
  \<open>int(s)\<close> for any string. For a string with a character beyond ASCII the interpreter
  first maps the whitespace and the decimal digits of every script to ASCII, by the
  tables of its Unicode database. Those tables are not part of the repository: what
  \<open>int()\<close> reads from such a string is the parameter \<open>uni\<close> (\<open>None\<close> where it raises
  ValueError), and every function that calls \<open>int()\<close> on a string takes it along.
\<close>

definition py_int_of_str :: "(string \<Rightarrow> int option) \<Rightarrow> string \<Rightarrow> py_error + int" where
  "py_int_of_str uni s =
     (if is_ascii s then py_int_of_ascii s
      else case uni s of None \<Rightarrow> Inl ValueError | Some i \<Rightarrow> Inr i)"

text \<open>
  An instance of the parameter for the examples, all of them ASCII: it reads no string.
\<close>

definition unicode_unread :: "string \<Rightarrow> int option" where
  "unicode_unread s = None"

text \<open>
  A parsed JSON document. A number with a fraction or an exponent is a float; the
  parser also yields the infinities (for \<open>1e999\<close> or \<open>Infinity\<close>) and NaN.
\<close>

datatype json =
  JNull | JBool bool | JInt int | JFloat pyfloat | JStr string | JArr "json list"
| JObj "(string \<times> json) list"

text \<open>
  \<open>int(v)\<close> for a JSON value: a float is truncated (an infinity raises OverflowError,
  NaN raises ValueError); TypeError for \<open>None\<close>, a list or a dict.
\<close>

fun py_int :: "(string \<Rightarrow> int option) \<Rightarrow> json \<Rightarrow> py_error + int" where
  "py_int uni (JInt i) = Inr i"
| "py_int uni (JBool b) = Inr (if b then 1 else 0)"
| "py_int uni (JFloat x) = int_of_float x"
| "py_int uni (JStr s) = py_int_of_str uni s"
| "py_int uni JNull = Inl TypeError"
| "py_int uni (JArr xs) = Inl TypeError"
| "py_int uni (JObj kvs) = Inl TypeError"

section \<open>pharmacy\_special.py: the rules model\<close>

definition MIN_LEVEL :: int where "MIN_LEVEL = 0"
definition MAX_LEVEL :: int where "MAX_LEVEL = 10"

text \<open>
  The three mappings are dicts with int keys, kept as association lists in insertion
  order; \<open>item_ids\<close> is a tuple.
\<close>

record rules =
  item_ids :: "int list"
  diff_by_level :: "(int \<times> int) list"
  max_by_level :: "(int \<times> int) list"
  diff_by_item_id :: "(int \<times> int) list"

text \<open>
  \<open>data.get(name, {}).items()\<close>: the entries of a section, none when the key is absent;
  a value that is not a dict has no \<open>items\<close> attribute.
\<close>

definition section_items :: "(string \<times> json) list \<Rightarrow> string \<Rightarrow> py_error + (string \<times> json) list" where
  "section_items data name =
     (case map_of data name of
        None \<Rightarrow> Inr []
      | Some (JObj kvs) \<Rightarrow> Inr kvs
      | Some _ \<Rightarrow> Inl AttributeError)"

text \<open>
  The comprehension \<open>{int(k): int(v) for k, v in items}\<close>: a key that is already
  present keeps its place and takes the new value.
\<close>

fun int_dict :: "(string \<Rightarrow> int option) \<Rightarrow> (string \<times> json) list \<Rightarrow> (int \<times> int) list \<Rightarrow> py_error + (int \<times> int) list" where
  "int_dict uni [] acc = Inr acc"
| "int_dict uni ((k, v) # kvs) acc =
     pybind (py_int_of_str uni k) (\<lambda>k'.
     pybind (py_int uni v) (\<lambda>v'.
     int_dict uni kvs (AList.update k' v' acc)))"

definition validate :: "rules \<Rightarrow> py_error + unit" where
  "validate r =
     (let required =
            [(''base_difficulty_by_level'', diff_by_level r),
             (''max_potions_by_level'', max_by_level r),
             (''base_difficulty_by_item_id'', diff_by_item_id r)];
          missing = map fst (filter (\<lambda>(name, value). value = []) required)
      in if missing \<noteq> [] then Inl InvalidRulesError
         else if list_ex (\<lambda>lvl. \<not> (MIN_LEVEL \<le> lvl \<and> lvl \<le> MAX_LEVEL)) (map fst (diff_by_level r))
           then Inl InvalidRulesError
         else if list_ex (\<lambda>v. v < 0) (map snd (diff_by_level r)) then Inl InvalidRulesError
         else if list_ex (\<lambda>v. v < 0) (map snd (max_by_level r)) then Inl InvalidRulesError
         else if list_ex (\<lambda>v. v < 0) (map snd (diff_by_item_id r)) then Inl InvalidRulesError
         else Inr ())"

definition from_dict :: "(string \<Rightarrow> int option) \<Rightarrow> json \<Rightarrow> py_error + rules" where
  "from_dict uni data =
     (case data of
        JObj d \<Rightarrow>
          (case
             pybind (section_items d ''base_difficulty_by_level'') (\<lambda>items1.
             pybind (int_dict uni items1 []) (\<lambda>raw_diff_by_level.
             pybind (section_items d ''max_potions_by_level'') (\<lambda>items2.
             pybind (int_dict uni items2 []) (\<lambda>raw_max_by_level.
             pybind (section_items d ''base_difficulty_by_item_id'') (\<lambda>items3.
             pybind (int_dict uni items3 []) (\<lambda>raw_diff_by_item.
             Inr (raw_diff_by_level, raw_max_by_level, raw_diff_by_item)))))))
           of
             Inl e \<Rightarrow> if e = TypeError \<or> e = ValueError then Inl InvalidRulesError else Inl e
           | Inr (raw_diff_by_level, raw_max_by_level, raw_diff_by_item) \<Rightarrow>
               let derived_item_ids = sort (map fst raw_diff_by_item);
                   rules = \<lparr>item_ids = derived_item_ids,
                            diff_by_level = raw_diff_by_level,
                            max_by_level = raw_max_by_level,
                            diff_by_item_id = raw_diff_by_item\<rparr>
               in pybind (validate rules) (\<lambda>u. Inr rules))
      | _ \<Rightarrow> Inl InvalidRulesError)"

text \<open>The payload of the repository's tests, and variants of it.\<close>

definition valid_rules_payload :: json where
  "valid_rules_payload = JObj
     [(''base_difficulty_by_level'', JObj [(''0'', JInt 0), (''1'', JInt 10), (''10'', JInt 100)]),
      (''max_potions_by_level'', JObj [(''0'', JInt 1), (''1'', JInt 2), (''10'', JInt 10)]),
      (''base_difficulty_by_item_id'', JObj [(''1001'', JInt 5), (''1002'', JInt 15)])]"








section \<open>catalog.py: recipe parsing\<close>

text \<open>\<open>s.split(sep)\<close> for a separator of one character.\<close>

fun split_on :: "char \<Rightarrow> string \<Rightarrow> string list" where
  "split_on sep [] = [[]]"
| "split_on sep (c # cs) =
     (if c = sep then [] # split_on sep cs
      else case split_on sep cs of
             p # ps \<Rightarrow> (c # p) # ps
           | [] \<Rightarrow> [[c]])"

text \<open>\<open>s.split(sep, 1)\<close>: one piece without the separator, two pieces around its first occurrence.\<close>

definition split_first :: "char \<Rightarrow> string \<Rightarrow> string list" where
  "split_first sep s =
     (if sep \<in> set s
      then [takeWhile (\<lambda>c. c \<noteq> sep) s, tl (dropWhile (\<lambda>c. c \<noteq> sep) s)]
      else [s])"

text \<open>
  The loop over the parts. Unpacking a split of one piece and \<open>int()\<close> of a malformed
  number raise inside the \<open>try\<close>; the handler skips the part.
\<close>

fun parse_parts :: "(string \<Rightarrow> int option) \<Rightarrow> string list \<Rightarrow> (int \<times> int) list \<Rightarrow> (int \<times> int) list" where
  "parse_parts uni [] out = out"
| "parse_parts uni (part # parts) out =
     parse_parts uni parts
       (if part = [] then out
        else case split_first CHR ''_'' part of
               [qty_str, id_str] \<Rightarrow>
                 (case py_int_of_str uni qty_str of
                    Inl e \<Rightarrow> out
                  | Inr qty \<Rightarrow>
                      (case py_int_of_str uni id_str of
                         Inl e \<Rightarrow> out
                       | Inr mid \<Rightarrow> if qty > 0 \<and> mid \<ge> 0 then out @ [(mid, qty)] else out))
             | _ \<Rightarrow> out)"

definition parse_recipe :: "(string \<Rightarrow> int option) \<Rightarrow> json \<Rightarrow> (int \<times> int) list" where
  "parse_recipe uni recipe_field =
     (case recipe_field of
        JStr s \<Rightarrow>
          if s = [] then []
          else parse_parts uni (split_on CHR ''+'' (filter (\<lambda>c. c \<noteq> CHR '' '') s)) []
      | _ \<Rightarrow> [])"

section \<open>custo\_producao.py: production cost\<close>













section \<open>The rules document as the specification words it\<close>

text \<open>
  The entries of a named section of a document (none when the section is missing), the
  integers its keys denote, and the shape of a document: each of the three sections
  that is present is a mapping, and none of its values is an infinite float.
\<close>

definition section_entries :: "json \<Rightarrow> string \<Rightarrow> (string \<times> json) list" where
  "section_entries data name =
     (case data of
        JObj d \<Rightarrow> (case map_of d name of Some (JObj items) \<Rightarrow> items | _ \<Rightarrow> [])
      | _ \<Rightarrow> [])"

definition int_keys :: "(string \<Rightarrow> int option) \<Rightarrow> (string \<times> json) list \<Rightarrow> int list" where
  "int_keys uni items =
     concat (map (\<lambda>(k, v). case py_int_of_str uni k of Inr i \<Rightarrow> [i] | Inl e \<Rightarrow> []) items)"





section \<open>The recipe grammar as the specification words it\<close>

text \<open>
  A recipe string is a list of segments joined by \<open>+\<close>. A well-formed segment is
  \<open>QTY_ID\<close>: a quantity and a material id, each of them a non-empty string of decimal
  digits, leading zeros allowed, around one \<open>_\<close>. It stands for the pair (material id,
  quantity) when the quantity is positive and neither number has more digits than the
  interpreter converts, and for nothing otherwise. A malformed segment, as far as it is
  described here, is any text without \<open>+\<close> that has no \<open>_\<close> separator, or that is ASCII
  and contains a letter, such as \<open>abc\<close>.
\<close>

definition is_letter :: "char \<Rightarrow> bool" where
  "is_letter c = (let n = (of_char c :: nat) in (65 \<le> n \<and> n \<le> 90) \<or> (97 \<le> n \<and> n \<le> 122))"

definition digit_string :: "string \<Rightarrow> bool" where
  "digit_string ds = (ds \<noteq> [] \<and> list_all is_digit ds)"

text \<open>The number that a string of digits denotes, read from the left.\<close>

definition digits_fold :: "nat \<Rightarrow> string \<Rightarrow> nat" where
  "digits_fold acc ds = foldl (\<lambda>a c. 10 * a + digit_val c) acc ds"

datatype segment = WellFormed string string | Malformed string

fun render :: "segment \<Rightarrow> string" where
  "render (WellFormed qty mid) = qty @ ''_'' @ mid"
| "render (Malformed s) = s"

fun admissible :: "segment \<Rightarrow> bool" where
  "admissible (WellFormed qty mid) = (digit_string qty \<and> digit_string mid)"
| "admissible (Malformed s) =
     (CHR ''+'' \<notin> set s \<and> (CHR ''_'' \<notin> set s \<or> (is_ascii s \<and> list_ex is_letter s)))"

fun join_plus :: "string list \<Rightarrow> string" where
  "join_plus [] = []"
| "join_plus [s] = s"
| "join_plus (s # t # ts) = s @ ''+'' @ join_plus (t # ts)"

fun pairs_of :: "segment \<Rightarrow> (int \<times> int) list" where
  "pairs_of (WellFormed qty mid) =
     (if length qty \<le> int_max_str_digits \<and> length mid \<le> int_max_str_digits
         \<and> 0 < digits_fold 0 qty
      then [(int (digits_fold 0 mid), int (digits_fold 0 qty))]
      else [])"
| "pairs_of (Malformed s) = []"

section \<open>The cost row as the specification words it\<close>






section \<open>The formula as the specification words it\<close>

text \<open>
  The specification's formula, in exact arithmetic: the sum with \<open>dexterity / 2\<close> as a
  true (rational) division, truncated toward zero.
\<close>

definition formula_spec ::
  "int \<Rightarrow> int \<Rightarrow> int \<Rightarrow> int \<Rightarrow> int \<Rightarrow> int \<Rightarrow> int \<Rightarrow> int \<Rightarrow> int \<Rightarrow> int" where
  "formula_spec intelligence dexterity luck job_level base_level
       potion_research_level protection_level r1 r2 =
     truncate_toward_zero
       (of_int intelligence + of_int dexterity / 2 + of_int luck + of_int job_level
        + of_int r1 + (of_int base_level - 100) + of_int potion_research_level * 5
        + of_int protection_level * of_int r2)"

section \<open>Facts about binary64 rounding\<close>

lemma powi_nat: "0 \<le> e \<Longrightarrow> (2::rat) powi e = 2 ^ nat e"
  by (simp add: power_int_def)

lemma powi_neg: "e \<le> 0 \<Longrightarrow> (2::rat) powi e = 1 / 2 ^ nat (- e)"
  by (simp add: power_int_def inverse_eq_divide power_one_over)

lemma binary_exponent_bounds_ge1:
  assumes "1 \<le> q"
  shows "2 powi (binary_exponent q) \<le> q \<and> q < 2 powi (binary_exponent q + 1)"
proof -
  define m where "m = \<lfloor>q\<rfloor>"
  have m1: "1 \<le> m" using assms by (simp add: m_def le_floor_iff)
  then have mpos: "0 < m" by simp
  have b1: "1 \<le> bitlen m" using mpos bitlen_eq_zero_iff [of m] bitlen_nonneg [of m] by linarith
  have e: "binary_exponent q = bitlen m - 1" using assms by (simp add: binary_exponent_def m_def)
  from bitlen_bounds [OF mpos]
  have lo: "2 ^ nat (bitlen m - 1) \<le> m" and hi: "m < 2 ^ nat (bitlen m)" by auto
  have "(2::rat) ^ nat (bitlen m - 1) = of_int (2 ^ nat (bitlen m - 1))" by simp
  also have "\<dots> \<le> of_int m" using lo by (simp only: of_int_le_iff)
  also have "\<dots> \<le> q" by (simp add: m_def)
  finally have A: "2 powi (binary_exponent q) \<le> q" using b1 by (simp add: e powi_nat)
  have "m + 1 \<le> 2 ^ nat (bitlen m)" using hi by simp
  then have "(of_int (m + 1) :: rat) \<le> of_int (2 ^ nat (bitlen m))" by (simp only: of_int_le_iff)
  moreover have "q < of_int (m + 1)" using floor_correct [of q] by (simp add: m_def)
  ultimately have "q < 2 ^ nat (bitlen m)" by simp
  then have B: "q < 2 powi (binary_exponent q + 1)" using b1 by (simp add: e powi_nat)
  from A B show ?thesis ..
qed

lemma binary_exponent_bounds_lt1:
  assumes "0 < q" "q < 1"
  shows "2 powi (binary_exponent q) \<le> q \<and> q < 2 powi (binary_exponent q + 1)"
proof -
  define t where "t = 1 / q"
  define c where "c = \<lceil>t\<rceil> - 1"
  have t1: "1 < t" using assms by (simp add: t_def)
  have tpos: "0 < t" using t1 by simp
  have q_t: "1 / t = q" using assms by (simp add: t_def)
  have "2 \<le> \<lceil>t\<rceil>" using t1 by (simp add: le_ceiling_iff)
  then have cpos: "0 < c" by (simp add: c_def)
  have b1: "1 \<le> bitlen c" using cpos bitlen_eq_zero_iff [of c] bitlen_nonneg [of c] by linarith
  have e: "binary_exponent q = - bitlen c" using assms by (simp add: binary_exponent_def c_def t_def)
  from bitlen_bounds [OF cpos]
  have lo: "2 ^ nat (bitlen c - 1) \<le> c" and hi: "c < 2 ^ nat (bitlen c)" by auto
  have "c + 1 \<le> 2 ^ nat (bitlen c)" using hi by simp
  then have "(of_int (c + 1) :: rat) \<le> of_int (2 ^ nat (bitlen c))" by (simp only: of_int_le_iff)
  moreover have "t \<le> of_int (c + 1)" by (simp add: c_def)
  ultimately have tle: "t \<le> 2 ^ nat (bitlen c)" by simp
  have "1 / (2::rat) ^ nat (bitlen c) \<le> 1 / t"
    using tle tpos by (simp add: frac_le)
  moreover have "(2::rat) powi (- bitlen c) = 1 / 2 ^ nat (bitlen c)"
    using b1 by (simp add: powi_neg)
  ultimately have A: "2 powi (binary_exponent q) \<le> q"
    unfolding e q_t by simp
  have "(2::rat) ^ nat (bitlen c - 1) = of_int (2 ^ nat (bitlen c - 1))" by simp
  also have "\<dots> \<le> of_int c" using lo by (simp only: of_int_le_iff)
  also have "\<dots> < t" by (simp add: c_def) linarith
  finally have tgt: "2 ^ nat (bitlen c - 1) < t" .
  have "1 / t < 1 / (2::rat) ^ nat (bitlen c - 1)"
    using tgt by (simp add: frac_less2)
  moreover have "(2::rat) powi (- bitlen c + 1) = 1 / 2 ^ nat (bitlen c - 1)"
    using b1 powi_neg [of "- bitlen c + 1"] by simp
  ultimately have B: "q < 2 powi (binary_exponent q + 1)"
    unfolding e q_t by simp
  from A B show ?thesis ..
qed

lemma binary_exponent_bounds:
  assumes "0 < q"
  shows "2 powi (binary_exponent q) \<le> q" and "q < 2 powi (binary_exponent q + 1)"
  using assms binary_exponent_bounds_ge1 [of q] binary_exponent_bounds_lt1 [of q]
  by (cases "1 \<le> q"; simp)+

lemma powi_two_less_imp: "(2::rat) powi a < 2 powi b \<Longrightarrow> a < b"
proof (rule ccontr)
  assume lt: "(2::rat) powi a < 2 powi b" and "\<not> a < b"
  then have "b = a \<or> b < a" by auto
  then have "(2::rat) powi b \<le> 2 powi a"
    using power_int_strict_increasing [of b a "2::rat"] by auto
  with lt show False by simp
qed

lemma binary_exponent_eq:
  assumes "2 powi n \<le> q" "q < 2 powi (n + 1)"
  shows "binary_exponent q = n"
proof -
  have "(0::rat) < 2 powi n" by simp
  then have qpos: "0 < q" using assms(1) by linarith
  note b = binary_exponent_bounds [OF qpos]
  have "2 powi n < (2::rat) powi (binary_exponent q + 1)" using assms(1) b(2) by linarith
  then have 1: "n < binary_exponent q + 1" by (rule powi_two_less_imp)
  have "2 powi (binary_exponent q) < (2::rat) powi (n + 1)" using assms(2) b(1) by linarith
  then have 2: "binary_exponent q < n + 1" by (rule powi_two_less_imp)
  from 1 2 show ?thesis by simp
qed

lemma round_half_even_of_int: "round_half_even (of_int n) = n"
  by (simp add: round_half_even_def)

lemma round_double_exact:
  assumes "\<bar>q\<bar> < 2 ^ 1024"
    and "\<bar>q\<bar> / 2 powi (max (binary_exponent \<bar>q\<bar>) (- 1022) - 52) = of_int n"
  shows "round_double q = Finite q"
proof (cases "q = 0")
  case True
  then show ?thesis by (simp add: round_double_def)
next
  case False
  define ulp :: rat where "ulp = 2 powi (max (binary_exponent \<bar>q\<bar>) (- 1022) - 52)"
  have ulp_pos: "0 < ulp" by (simp add: ulp_def)
  have quot: "\<bar>q\<bar> / ulp = of_int n" using assms(2) by (simp add: ulp_def)
  then have "\<bar>q\<bar> = of_int n * ulp" using ulp_pos by (simp add: field_simps)
  then have r: "of_int (round_half_even (\<bar>q\<bar> / ulp)) * ulp = \<bar>q\<bar>"
    unfolding quot by (simp add: round_half_even_of_int)
  have nlt: "\<not> (2 ^ 1024 \<le> \<bar>q\<bar>)" using assms(1) by simp
  have "round_double q = Finite (if 0 < q then \<bar>q\<bar> else - \<bar>q\<bar>)"
    using False nlt unfolding round_double_def Let_def ulp_def [symmetric] r
    by (simp only: if_False)
  then show ?thesis by (simp add: abs_if)
qed

lemma round_double_dyadic:
  assumes m: "\<bar>m\<bar> < 2 ^ 53" and k: "- 1074 \<le> k"
    and range: "\<bar>of_int m * 2 powi k\<bar> < (2::rat) ^ 1024"
  shows "round_double (of_int m * 2 powi k) = Finite (of_int m * 2 powi k)"
proof (cases "m = 0")
  case True
  then show ?thesis by (simp add: round_double_def)
next
  case False
  define a :: rat where "a = \<bar>of_int m * 2 powi k\<bar>"
  have a_eq: "a = of_int \<bar>m\<bar> * 2 powi k" by (simp add: a_def abs_mult)
  have apos: "0 < a" using False by (simp add: a_eq)
  define e where "e = binary_exponent a"
  define E where "E = max e (- 1022)"
  have "(of_int \<bar>m\<bar> :: rat) < of_int (2 ^ 53)" using m by (simp only: of_int_less_iff)
  then have "a < 2 ^ 53 * 2 powi k" by (simp add: a_eq)
  also have "\<dots> = 2 powi (53 + k)" by (simp add: power_int_add)
  finally have "a < 2 powi (53 + k)" .
  moreover have "2 powi e \<le> a" using binary_exponent_bounds(1) [OF apos] by (simp add: e_def)
  ultimately have "(2::rat) powi e < 2 powi (53 + k)" by linarith
  then have "e < 53 + k" by (rule powi_two_less_imp)
  then have j: "0 \<le> k - (E - 52)" using k by (simp add: E_def)
  have "a / 2 powi (E - 52) = of_int \<bar>m\<bar> * 2 powi (k - (E - 52))"
    by (simp add: a_eq power_int_diff)
  also have "\<dots> = of_int \<bar>m\<bar> * 2 ^ nat (k - (E - 52))" using j by (simp add: powi_nat)
  also have "\<dots> = of_int (\<bar>m\<bar> * 2 ^ nat (k - (E - 52)))" by simp
  finally have "\<bar>(of_int m :: rat) * 2 powi k\<bar> /
      2 powi (max (binary_exponent \<bar>of_int m * 2 powi k\<bar>) (- 1022) - 52)
      = (of_int (\<bar>m\<bar> * 2 ^ nat (k - (E - 52))) :: rat)"
    by (simp add: a_def E_def e_def)
  with range show ?thesis by (rule round_double_exact)
qed

lemma round_double_half_int:
  assumes "\<bar>h\<bar> < 2 ^ 53"
  shows "round_double (of_int h / 2) = Finite (of_int h / 2)"
proof -
  have "\<bar>(of_int h :: rat)\<bar> = of_int \<bar>h\<bar>" by simp
  also have "\<dots> < of_int (2 ^ 53)" using assms by (simp only: of_int_less_iff)
  finally have "\<bar>(of_int h :: rat)\<bar> < 2 ^ 53" by simp
  then have "\<bar>of_int h * 2 powi (- 1)\<bar> < (2::rat) ^ 1024"
    by (simp add: abs_mult)
  with assms have "round_double (of_int h * 2 powi (- 1)) = Finite (of_int h * 2 powi (- 1))"
    by (intro round_double_dyadic) simp_all
  then show ?thesis by simp
qed

lemma round_double_int:
  assumes "\<bar>i\<bar> < 2 ^ 53"
  shows "round_double (of_int i) = Finite (of_int i)"
proof -
  have "\<bar>(of_int i :: rat)\<bar> = of_int \<bar>i\<bar>" by simp
  also have "\<dots> < of_int (2 ^ 53)" using assms by (simp only: of_int_less_iff)
  finally have "\<bar>(of_int i :: rat)\<bar> < 2 ^ 53" by simp
  then have "\<bar>of_int i * 2 powi 0\<bar> < (2::rat) ^ 1024" by simp
  with assms have "round_double (of_int i * 2 powi 0) = Finite (of_int i * 2 powi 0)"
    by (intro round_double_dyadic) simp_all
  then show ?thesis by simp
qed

lemma round_double_zero: "round_double 0 = Finite 0"
  by (simp add: round_double_def)

section \<open>The formula evaluator\<close>

lemma round_double_not_NaN: "round_double q \<noteq> NaN"
  by (simp add: round_double_def Let_def)

lemma float_of_int_Finite: "float_of_int i = Inr y \<Longrightarrow> \<exists>r. y = Finite r"
  by (cases "round_double (of_int i)") (auto simp: float_of_int_def)

lemma add_float_int_not_nan:
  "add_float_int x i = Inr y \<Longrightarrow> x \<noteq> NaN \<Longrightarrow> y \<noteq> NaN"
  by (cases x) (auto simp: add_float_int_def pybind_def round_double_not_NaN
      split: sum.splits dest!: float_of_int_Finite)

lemma add_int_float_not_nan:
  "add_int_float i x = Inr y \<Longrightarrow> x \<noteq> NaN \<Longrightarrow> y \<noteq> NaN"
  by (cases x) (auto simp: add_int_float_def pybind_def round_double_not_NaN
      split: sum.splits dest!: float_of_int_Finite)

lemma truediv_by_two_not_nan:
  "truediv_int_float i (Finite 2) = Inr y \<Longrightarrow> y \<noteq> NaN"
  by (auto simp: truediv_int_float_def pybind_def round_double_not_NaN
      split: sum.splits dest!: float_of_int_Finite)

lemma int_of_float_ValueError: "int_of_float x = Inl ValueError \<Longrightarrow> x = NaN"
  by (cases x) auto

lemma float_of_int_error: "float_of_int i = Inl e \<Longrightarrow> e = OverflowError"
  by (auto simp: float_of_int_def split: pyfloat.splits)

lemma add_float_int_error: "add_float_int x i = Inl e \<Longrightarrow> e = OverflowError"
  by (auto simp: add_float_int_def pybind_def split: sum.splits dest: float_of_int_error)

lemma add_int_float_error: "add_int_float i x = Inl e \<Longrightarrow> e = OverflowError"
  by (auto simp: add_int_float_def pybind_def split: sum.splits dest: float_of_int_error)

lemma truediv_by_two_error: "truediv_int_float i (Finite 2) = Inl e \<Longrightarrow> e = OverflowError"
  by (auto simp: truediv_int_float_def pybind_def split: sum.splits pyfloat.splits
      dest: float_of_int_error)

text \<open>
  Claim C6. The formula evaluator fails with the draw-range error (Python's ValueError,
  the spec's InvalidArgument) exactly when \<open>r1\<close> lies outside \<open>[30,150]\<close> or \<open>r2\<close> lies
  outside \<open>[4,10]\<close>: an out-of-range draw is always rejected, and a call with in-range
  draws never ends in that error (the float arithmetic after the guard cannot produce
  NaN, the only other source of a ValueError).
\<close>

theorem special_pharmacy_rejects_draws:
  "(special_pharmacy int_stat des_stat sor_stat job_level base_level
      potion_research_level chemical_protection_level r1 r2 = Inl ValueError)
   = (r1 < 30 \<or> 150 < r1 \<or> r2 < 4 \<or> 10 < r2)"
proof (cases "r1 < 30 \<or> 150 < r1 \<or> r2 < 4 \<or> 10 < r2")
  case True
  then show ?thesis
    by (auto simp: special_pharmacy_def R1_MIN_def R1_MAX_def R2_MIN_def R2_MAX_def)
next
  case False
  have "special_pharmacy int_stat des_stat sor_stat job_level base_level
      potion_research_level chemical_protection_level r1 r2 \<noteq> Inl ValueError"
  proof
    assume a: "special_pharmacy int_stat des_stat sor_stat job_level base_level
      potion_research_level chemical_protection_level r1 r2 = Inl ValueError"
    show False
      using a False
      apply (simp add: special_pharmacy_def R1_MIN_def R1_MAX_def R2_MIN_def R2_MAX_def
          pybind_def split: sum.splits)
      apply (auto dest: truediv_by_two_error add_int_float_error add_float_int_error
          dest!: int_of_float_ValueError)
      by (metis add_float_int_not_nan add_int_float_not_nan truediv_by_two_not_nan)
  qed
  with False show ?thesis by simp
qed

lemma float_of_int_exact:
  "\<bar>i\<bar> < 2 ^ 53 \<Longrightarrow> float_of_int i = Inr (Finite (of_int i))"
  by (simp add: float_of_int_def round_double_int)

lemma half_int_add: "(of_int h / 2 :: rat) + of_int i = of_int (h + 2 * i) / 2"
  by simp

lemma add_float_int_exact:
  assumes "\<bar>i\<bar> < 2 ^ 53" "\<bar>h + 2 * i\<bar> < 2 ^ 53"
  shows "add_float_int (Finite (of_int h / 2)) i = Inr (Finite (of_int (h + 2 * i) / 2))"
proof -
  have "round_double (of_int h / 2 + of_int i) = Finite (of_int (h + 2 * i) / 2)"
    unfolding half_int_add using assms(2) by (rule round_double_half_int)
  then show ?thesis
    using assms(1) by (simp add: add_float_int_def pybind_def float_of_int_exact)
qed

lemma add_int_float_exact:
  assumes "\<bar>i\<bar> < 2 ^ 53" "\<bar>h + 2 * i\<bar> < 2 ^ 53"
  shows "add_int_float i (Finite (of_int h / 2)) = Inr (Finite (of_int (h + 2 * i) / 2))"
proof -
  have "(of_int i + of_int h / 2 :: rat) = of_int (h + 2 * i) / 2" by simp
  then have "round_double (of_int i + of_int h / 2) = Finite (of_int (h + 2 * i) / 2)"
    using round_double_half_int [OF assms(2)] by (simp only:)
  then show ?thesis
    using assms(1) by (simp add: add_int_float_def pybind_def float_of_int_exact)
qed

lemma truediv_by_two_exact:
  assumes "\<bar>i\<bar> < 2 ^ 53"
  shows "truediv_int_float i (Finite 2) = Inr (Finite (of_int i / 2))"
  using assms by (simp add: truediv_int_float_def pybind_def float_of_int_exact round_double_half_int)

lemma draw_product_bound:
  fixes c r :: int
  assumes "\<bar>c\<bar> \<le> B" "4 \<le> r" "r \<le> 10"
  shows "\<bar>c * r\<bar> \<le> 10 * B"
proof -
  have "\<bar>c * r\<bar> = \<bar>c\<bar> * r" using assms(2) by (simp add: abs_mult)
  also have "\<dots> \<le> \<bar>c\<bar> * 10" using assms(3) by (intro mult_left_mono) simp_all
  also have "\<dots> \<le> B * 10" using assms(1) by simp
  finally show ?thesis by simp
qed

lemma special_pharmacy_exact:
  assumes "\<bar>int_stat\<bar> \<le> 2 ^ 47" "\<bar>des_stat\<bar> \<le> 2 ^ 47" "\<bar>sor_stat\<bar> \<le> 2 ^ 47"
    and "\<bar>job_level\<bar> \<le> 2 ^ 47" "\<bar>base_level\<bar> \<le> 2 ^ 47"
    and "\<bar>potion_research_level\<bar> \<le> 2 ^ 47" "\<bar>chemical_protection_level\<bar> \<le> 2 ^ 47"
    and "30 \<le> r1" "r1 \<le> 150" "4 \<le> r2" "r2 \<le> 10"
  shows "special_pharmacy int_stat des_stat sor_stat job_level base_level
           potion_research_level chemical_protection_level r1 r2 =
         Inr (truncate_toward_zero
           (of_int int_stat + of_int des_stat / 2 + of_int sor_stat + of_int job_level
            + of_int r1 + (of_int base_level - 100) + of_int potion_research_level * 5
            + of_int chemical_protection_level * of_int r2))"
proof -
  define p where "p = chemical_protection_level * r2"
  have p: "\<bar>p\<bar> \<le> 10 * 2 ^ 47"
    unfolding p_def using assms(7,10,11) by (rule draw_product_bound)
  define h1 where "h1 = des_stat + 2 * int_stat"
  define h2 where "h2 = h1 + 2 * sor_stat"
  define h3 where "h3 = h2 + 2 * job_level"
  define h4 where "h4 = h3 + 2 * r1"
  define h5 where "h5 = h4 + 2 * (base_level - 100)"
  define h6 where "h6 = h5 + 2 * (potion_research_level * 5)"
  define h7 where "h7 = h6 + 2 * p"
  note hs = h1_def h2_def h3_def h4_def h5_def h6_def h7_def
  have s0: "truediv_int_float des_stat (Finite 2) = Inr (Finite (of_int des_stat / 2))"
    using assms(2) by (intro truediv_by_two_exact) simp
  have s1: "add_int_float int_stat (Finite (of_int des_stat / 2)) = Inr (Finite (of_int h1 / 2))"
    unfolding h1_def using assms(1,2) by (intro add_int_float_exact) simp_all
  have s2: "add_float_int (Finite (of_int h1 / 2)) sor_stat = Inr (Finite (of_int h2 / 2))"
    unfolding h2_def using assms(1-3) by (intro add_float_int_exact) (simp_all add: h1_def)
  have s3: "add_float_int (Finite (of_int h2 / 2)) job_level = Inr (Finite (of_int h3 / 2))"
    unfolding h3_def using assms(1-4) by (intro add_float_int_exact) (simp_all add: h1_def h2_def)
  have s4: "add_float_int (Finite (of_int h3 / 2)) r1 = Inr (Finite (of_int h4 / 2))"
    unfolding h4_def using assms(1-4,8,9)
    by (intro add_float_int_exact) (simp_all add: h1_def h2_def h3_def)
  have s5: "add_float_int (Finite (of_int h4 / 2)) (base_level - 100) = Inr (Finite (of_int h5 / 2))"
    unfolding h5_def using assms(1-5,8,9)
    by (intro add_float_int_exact) (simp_all add: h1_def h2_def h3_def h4_def)
  have s6: "add_float_int (Finite (of_int h5 / 2)) (potion_research_level * 5)
      = Inr (Finite (of_int h6 / 2))"
    unfolding h6_def using assms(1-6,8,9)
    by (intro add_float_int_exact) (simp_all add: h1_def h2_def h3_def h4_def h5_def)
  have s7: "add_float_int (Finite (of_int h6 / 2)) p = Inr (Finite (of_int h7 / 2))"
    unfolding h7_def using assms(1-6,8,9) p
    by (intro add_float_int_exact) (simp_all add: h1_def h2_def h3_def h4_def h5_def h6_def)
  have val: "(of_int h7 / 2 :: rat) =
      of_int int_stat + of_int des_stat / 2 + of_int sor_stat + of_int job_level
            + of_int r1 + (of_int base_level - 100) + of_int potion_research_level * 5
            + of_int chemical_protection_level * of_int r2"
    by (simp add: hs p_def field_simps)
  have "special_pharmacy int_stat des_stat sor_stat job_level base_level
           potion_research_level chemical_protection_level r1 r2
        = int_of_float (Finite (of_int h7 / 2))"
    using assms(8-11)
    by (simp add: special_pharmacy_def R1_MIN_def R1_MAX_def R2_MIN_def R2_MAX_def
        pybind_def s0 s1 s2 s3 s4 s5 s6 s7 [unfolded p_def])
  then show ?thesis by (simp only: val int_of_float.simps)
qed

lemma round_double_pos_eval:
  assumes "2 powi n \<le> q" "q < 2 powi (n + 1)" "- 1022 \<le> n"
  shows "round_double q =
    (if (2::rat) ^ 1024 \<le> of_int (round_half_even (q / 2 powi (n - 52))) * 2 powi (n - 52) then PInf
     else Finite (of_int (round_half_even (q / 2 powi (n - 52))) * 2 powi (n - 52)))"
proof -
  have "(0::rat) < 2 powi n" by simp
  then have qpos: "0 < q" using assms(1) by linarith
  have e: "binary_exponent q = n" using assms(1,2) by (rule binary_exponent_eq)
  have m: "max n (- 1022) = n" using assms(3) by simp
  show ?thesis
    using qpos by (simp add: round_double_def Let_def e m)
qed

lemma round_double_tie: "round_double 9007199254740993 = Finite 9007199254740992"
proof -
  have f: "\<lfloor>9007199254740993 / 2 :: rat\<rfloor> = 4503599627370496"
    using floor_divide_of_int_eq [of 9007199254740993 2, where ?'a = rat] by simp
  have h: "round_half_even (9007199254740993 / 2) = 4503599627370496"
    by (simp add: round_half_even_def Let_def f)
  have "round_double 9007199254740993 =
    (if (2::rat) ^ 1024 \<le> of_int (round_half_even (9007199254740993 / 2 powi (53 - 52))) * 2 powi (53 - 52) then PInf
     else Finite (of_int (round_half_even (9007199254740993 / 2 powi (53 - 52))) * 2 powi (53 - 52)))"
    by (rule round_double_pos_eval) simp_all
  then show ?thesis by (simp add: h)
qed

lemma round_double_overflow:
  "round_double (2 ^ 1024) = PInf"
proof -
  have h: "round_half_even (2 ^ 1024 / 2 powi (1024 - 52)) = 2 ^ 52"
  proof -
    have "(2::rat) ^ 1024 / 2 powi (1024 - 52) = of_int (2 ^ 52)" by simp
    then show ?thesis by (simp only: round_half_even_of_int)
  qed
  have "round_double (2 ^ 1024) =
    (if (2::rat) ^ 1024 \<le> of_int (round_half_even (2 ^ 1024 / 2 powi (1024 - 52))) * 2 powi (1024 - 52) then PInf
     else Finite (of_int (round_half_even (2 ^ 1024 / 2 powi (1024 - 52))) * 2 powi (1024 - 52)))"
    by (rule round_double_pos_eval) simp_all
  then show ?thesis unfolding h by simp
qed

text \<open>
  Claim C1 (as amended). For integer inputs whose seven stat and level values have
  magnitude at most \<open>2^47\<close>, with \<open>r1\<close> in \<open>[30,150]\<close> and \<open>r2\<close> in \<open>[4,10]\<close>, the
  evaluator returns the truncation toward zero of
  \<open>intelligence + dexterity/2 + luck + job_level + r1 + (base_level - 100)
  + potion_research_level*5 + protection_level*r2\<close>, the division being exact; for the
  inputs 100, 100, 100, 50, 120, 10, 5 with draws 30 and 4 it returns 420.
\<close>

theorem special_pharmacy_formula:
  assumes "\<bar>int_stat\<bar> \<le> 2 ^ 47" "\<bar>des_stat\<bar> \<le> 2 ^ 47" "\<bar>sor_stat\<bar> \<le> 2 ^ 47"
    and "\<bar>job_level\<bar> \<le> 2 ^ 47" "\<bar>base_level\<bar> \<le> 2 ^ 47"
    and "\<bar>potion_research_level\<bar> \<le> 2 ^ 47" "\<bar>chemical_protection_level\<bar> \<le> 2 ^ 47"
    and "30 \<le> r1" "r1 \<le> 150" "4 \<le> r2" "r2 \<le> 10"
  shows "special_pharmacy int_stat des_stat sor_stat job_level base_level
           potion_research_level chemical_protection_level r1 r2 =
         Inr (formula_spec int_stat des_stat sor_stat job_level base_level
           potion_research_level chemical_protection_level r1 r2)
       \<and> special_pharmacy 100 100 100 50 120 10 5 30 4 = Inr 420"
proof -
  have "special_pharmacy 100 100 100 50 120 10 5 30 4 = Inr 420"
    using special_pharmacy_exact [of 100 100 100 50 120 10 5 30 4]
    by (simp add: truncate_toward_zero_def)
  with assms show ?thesis
    by (simp add: special_pharmacy_exact formula_spec_def)
qed

theorem special_pharmacy_formula_witness:
  "\<bar>- 100::int\<bar> \<le> 2 ^ 47 \<and> \<bar>1::int\<bar> \<le> 2 ^ 47 \<and> \<bar>0::int\<bar> \<le> 2 ^ 47 \<and> \<bar>100::int\<bar> \<le> 2 ^ 47
   \<and> (30::int) \<le> 30 \<and> (30::int) \<le> 150 \<and> (4::int) \<le> 4 \<and> (4::int) \<le> 10
   \<and> special_pharmacy (- 100) 1 0 0 100 0 0 30 4 = Inr (formula_spec (- 100) 1 0 0 100 0 0 30 4)
   \<and> formula_spec (- 100) 1 0 0 100 0 0 30 4 = - 69"
proof -
  have h: "\<bar>- 100::int\<bar> \<le> 2 ^ 47" "\<bar>1::int\<bar> \<le> 2 ^ 47" "\<bar>0::int\<bar> \<le> 2 ^ 47" "\<bar>100::int\<bar> \<le> 2 ^ 47"
    "(30::int) \<le> 30" "(30::int) \<le> 150" "(4::int) \<le> 4" "(4::int) \<le> 10"
    by simp_all
  have "\<lceil>- 139 / 2 :: rat\<rceil> = - 69"
    by (rule ceiling_unique) simp_all
  then have v: "formula_spec (- 100) 1 0 0 100 0 0 30 4 = - 69"
    by (simp add: formula_spec_def truncate_toward_zero_def)
  from special_pharmacy_formula [OF h(1) h(2) h(3) h(3) h(4) h(3) h(3) h(5) h(6) h(7) h(8)] h v
  show ?thesis by blast
qed

text \<open>
  Claim C1 as stated, for all integer inputs, fails: at intelligence \<open>2^53 + 1\<close> (the other
  stats 0, base level 100, draws 30 and 4) the conversion of the stat to a float rounds
  to \<open>2^53\<close>, and the evaluator returns \<open>2^53 + 30\<close> where the exact formula gives
  \<open>2^53 + 31\<close>.
\<close>

theorem special_pharmacy_formula_counterexample:
  "special_pharmacy 9007199254740993 0 0 0 100 0 0 30 4 = Inr 9007199254741022
   \<and> formula_spec 9007199254740993 0 0 0 100 0 0 30 4 = 9007199254741023"
proof -
  have c: "float_of_int 9007199254740993 = Inr (Finite 9007199254740992)"
    by (simp add: float_of_int_def round_double_tie)
  have z: "float_of_int 0 = Inr (Finite 0)"
    by (simp add: float_of_int_def round_double_zero)
  have t: "float_of_int 30 = Inr (Finite 30)"
    using float_of_int_exact [of 30] by simp
  have a: "round_double 9007199254740992 = Finite 9007199254740992"
    using round_double_dyadic [of 4503599627370496 1] by simp
  have b: "round_double 9007199254741022 = Finite 9007199254741022"
    using round_double_dyadic [of 4503599627370511 1] by simp
  show ?thesis
    by (simp add: special_pharmacy_def R1_MIN_def R1_MAX_def R2_MIN_def R2_MAX_def pybind_def
        truediv_int_float_def add_int_float_def add_float_int_def c z t a b round_double_zero
        truncate_toward_zero_def formula_spec_def)
qed

section \<open>The outcome enumerator\<close>

lemma collect_all_Inr:
  "(\<And>x. x \<in> set xs \<Longrightarrow> f x = Inr (g x)) \<Longrightarrow> collect (map f xs) = Inr (map g xs)"
  by (induction xs) simp_all

lemma collect_all_Inl:
  "xs \<noteq> [] \<Longrightarrow> (\<And>x. x \<in> set xs \<Longrightarrow> f x = Inl e) \<Longrightarrow> collect (map f xs) = Inl e"
  by (cases xs) simp_all

lemma draws_as_product:
  "[f r1 r2. r1 \<leftarrow> xs, r2 \<leftarrow> ys] = map (\<lambda>(r1, r2). f r1 r2) (List.product xs ys)"
  by (induction xs) simp_all

lemma length_draws_gen:
  "length [f r1 r2. r1 \<leftarrow> xs, r2 \<leftarrow> ys] = length xs * length ys"
  by (induction xs) simp_all

lemma length_draws:
  "length [f r1 r2. r1 \<leftarrow> [30..150::int], r2 \<leftarrow> [4..10::int]] = 847"
proof -
  have "length [30..150::int] = 121" "length [4..10::int] = 7"
    by (simp_all only: length_upto)
  then show ?thesis by (simp only: length_draws_gen)
qed

lemma in_product_upto:
  "x \<in> set (List.product [a..b] [c..d]) \<Longrightarrow> a \<le> fst x \<and> fst x \<le> b \<and> c \<le> snd x \<and> snd x \<le> d"
  by (cases x) simp

text \<open>
  Claim C2 (as amended). For every combination of the seven stat and level inputs of
  magnitude at most \<open>2^47\<close> the enumerator returns a sequence of exactly 847 integers:
  the formula at every pair of draws, \<open>r1\<close> over \<open>[30,150]\<close> in the outer loop and \<open>r2\<close>
  over \<open>[4,10]\<close> in the inner loop. The enumerator is a function of its seven arguments
  alone (it reads no state), so a second call with the same inputs yields the same
  sequence.
\<close>

theorem enumerate_special_pharmacy_results_formula:
  assumes "\<bar>int_stat\<bar> \<le> 2 ^ 47" "\<bar>des_stat\<bar> \<le> 2 ^ 47" "\<bar>sor_stat\<bar> \<le> 2 ^ 47"
    and "\<bar>job_level\<bar> \<le> 2 ^ 47" "\<bar>base_level\<bar> \<le> 2 ^ 47"
    and "\<bar>potion_research_level\<bar> \<le> 2 ^ 47" "\<bar>chemical_protection_level\<bar> \<le> 2 ^ 47"
  shows "enumerate_special_pharmacy_results int_stat des_stat sor_stat job_level base_level
           potion_research_level chemical_protection_level =
         Inr [formula_spec int_stat des_stat sor_stat job_level base_level
                potion_research_level chemical_protection_level r1 r2.
              r1 \<leftarrow> [30..150], r2 \<leftarrow> [4..10]]
       \<and> length [formula_spec int_stat des_stat sor_stat job_level base_level
                potion_research_level chemical_protection_level r1 r2.
              r1 \<leftarrow> [30..150], r2 \<leftarrow> [4..10]] = 847"
proof -
  have "collect (map (\<lambda>(r1, r2). special_pharmacy int_stat des_stat sor_stat job_level base_level
           potion_research_level chemical_protection_level r1 r2) (List.product [30..150] [4..10]))
     = Inr (map (\<lambda>(r1, r2). formula_spec int_stat des_stat sor_stat job_level base_level
           potion_research_level chemical_protection_level r1 r2) (List.product [30..150] [4..10]))"
  proof (rule collect_all_Inr)
    fix x :: "int \<times> int"
    assume mem: "x \<in> set (List.product [30..150] [4..10])"
    from in_product_upto [OF mem]
    have "30 \<le> fst x" "fst x \<le> 150" "4 \<le> snd x" "snd x \<le> 10"
      by simp_all
    with assms show "(case x of (r1, r2) \<Rightarrow> special_pharmacy int_stat des_stat sor_stat job_level
           base_level potion_research_level chemical_protection_level r1 r2)
        = Inr (case x of (r1, r2) \<Rightarrow> formula_spec int_stat des_stat sor_stat job_level
           base_level potion_research_level chemical_protection_level r1 r2)"
      by (cases x) (simp add: special_pharmacy_exact formula_spec_def)
  qed
  then have "enumerate_special_pharmacy_results int_stat des_stat sor_stat job_level base_level
           potion_research_level chemical_protection_level =
         Inr [formula_spec int_stat des_stat sor_stat job_level base_level
                potion_research_level chemical_protection_level r1 r2.
              r1 \<leftarrow> [30..150], r2 \<leftarrow> [4..10]]"
    by (simp only: enumerate_special_pharmacy_results_def draws_as_product
        R1_MIN_def R1_MAX_def R2_MIN_def R2_MAX_def)
  then show ?thesis using length_draws by blast
qed

theorem enumerate_special_pharmacy_results_formula_witness:
  "\<bar>100::int\<bar> \<le> 2 ^ 47 \<and> \<bar>50::int\<bar> \<le> 2 ^ 47 \<and> \<bar>120::int\<bar> \<le> 2 ^ 47
   \<and> \<bar>10::int\<bar> \<le> 2 ^ 47 \<and> \<bar>5::int\<bar> \<le> 2 ^ 47
   \<and> enumerate_special_pharmacy_results 100 100 100 50 120 10 5 =
         Inr [formula_spec 100 100 100 50 120 10 5 r1 r2. r1 \<leftarrow> [30..150], r2 \<leftarrow> [4..10]]
   \<and> length [formula_spec 100 100 100 50 120 10 5 r1 r2. r1 \<leftarrow> [30..150], r2 \<leftarrow> [4..10]] = 847"
proof -
  have h: "\<bar>100::int\<bar> \<le> 2 ^ 47" "\<bar>50::int\<bar> \<le> 2 ^ 47" "\<bar>120::int\<bar> \<le> 2 ^ 47"
    "\<bar>10::int\<bar> \<le> 2 ^ 47" "\<bar>5::int\<bar> \<le> 2 ^ 47"
    by simp_all
  from enumerate_special_pharmacy_results_formula [OF h(1) h(1) h(1) h(2) h(3) h(4) h(5)] h
  show ?thesis by blast
qed

lemma special_pharmacy_overflow:
  assumes "30 \<le> r1" "r1 \<le> 150" "4 \<le> r2" "r2 \<le> 10"
  shows "special_pharmacy int_stat (2 ^ 1024) sor_stat job_level base_level
           potion_research_level chemical_protection_level r1 r2 = Inl OverflowError"
proof -
  have "round_double (of_int (2 ^ 1024)) = PInf"
    using round_double_overflow by simp
  then have "float_of_int (2 ^ 1024) = Inl OverflowError"
    by (simp only: float_of_int_def pyfloat.case)
  then have "truediv_int_float (2 ^ 1024) (Finite 2) = Inl OverflowError"
    by (simp only: truediv_int_float_def pybind_def sum.case)
  with assms show ?thesis
    by (simp add: special_pharmacy_def R1_MIN_def R1_MAX_def R2_MIN_def R2_MAX_def pybind_def
        del: power_numeral)
qed

text \<open>
  Claim C2 as stated, for every combination of integer inputs, fails: with dexterity
  \<open>2^1024\<close> the conversion \<open>des_stat / 2.0\<close> raises OverflowError at the first pair of
  draws and the enumerator returns no sequence.
\<close>

theorem enumerate_special_pharmacy_results_counterexample:
  "enumerate_special_pharmacy_results 0 (2 ^ 1024) 0 0 100 0 0 = Inl OverflowError"
proof -
  have ne: "List.product [30..150::int] [4..10::int] \<noteq> []"
    by (simp add: upto_rec1 [of 30 150] upto_rec1 [of 4 10] del: upto_rec_numeral)
  have "collect (map (\<lambda>(r1, r2). special_pharmacy 0 (2 ^ 1024) 0 0 100 0 0 r1 r2)
          (List.product [30..150] [4..10])) = Inl OverflowError"
  proof (rule collect_all_Inl [OF ne])
    fix x :: "int \<times> int"
    assume mem: "x \<in> set (List.product [30..150] [4..10])"
    from in_product_upto [OF mem]
    have "30 \<le> fst x" "fst x \<le> 150" "4 \<le> snd x" "snd x \<le> 10"
      by simp_all
    then show "(case x of (r1, r2) \<Rightarrow> special_pharmacy 0 (2 ^ 1024) 0 0 100 0 0 r1 r2)
        = Inl OverflowError"
      by (cases x) (simp only: prod.case fst_conv snd_conv special_pharmacy_overflow)
  qed
  then show ?thesis
    by (simp only: enumerate_special_pharmacy_results_def draws_as_product
        R1_MIN_def R1_MAX_def R2_MIN_def R2_MAX_def)
qed

section \<open>The bucketizer\<close>


lemma count_loop_five:
  "count_loop t1 t2 t3 t4 results
     [(''MAX'', a), (''MAX-3'', b), (''MAX-4'', c), (''MAX-5'', d), (''MAX-6'', e)] =
   [(''MAX'', a + int (length (filter (\<lambda>v. t1 \<le> v) results))),
    (''MAX-3'', b + int (length (filter (\<lambda>v. v < t1 \<and> t2 \<le> v) results))),
    (''MAX-4'', c + int (length (filter (\<lambda>v. v < t1 \<and> v < t2 \<and> t3 \<le> v) results))),
    (''MAX-5'', d + int (length (filter (\<lambda>v. v < t1 \<and> v < t2 \<and> v < t3 \<and> t4 \<le> v) results))),
    (''MAX-6'', e + int (length (filter (\<lambda>v. v < t1 \<and> v < t2 \<and> v < t3 \<and> v < t4) results)))]"
  by (induction results arbitrary: a b c d e) (simp_all add: incr_def)

lemma bucket_counts:
  "count_loop (d + 400) (d + 300) (d + 100) d results (map (\<lambda>k. (k, 0)) labels) =
   [(''MAX'', int (length (filter (\<lambda>v. d + 400 \<le> v) results))),
    (''MAX-3'', int (length (filter (\<lambda>v. d + 300 \<le> v \<and> v < d + 400) results))),
    (''MAX-4'', int (length (filter (\<lambda>v. d + 100 \<le> v \<and> v < d + 300) results))),
    (''MAX-5'', int (length (filter (\<lambda>v. d \<le> v \<and> v < d + 100) results))),
    (''MAX-6'', int (length (filter (\<lambda>v. v < d) results)))]"
proof -
  have c3: "(\<lambda>v::int. v < d + 400 \<and> d + 300 \<le> v) = (\<lambda>v. d + 300 \<le> v \<and> v < d + 400)"
    by auto
  have c4: "(\<lambda>v::int. v < d + 400 \<and> v < d + 300 \<and> d + 100 \<le> v) = (\<lambda>v. d + 100 \<le> v \<and> v < d + 300)"
    by auto
  have c5: "(\<lambda>v::int. v < d + 400 \<and> v < d + 300 \<and> v < d + 100 \<and> d \<le> v) = (\<lambda>v. d \<le> v \<and> v < d + 100)"
    by auto
  have c6: "(\<lambda>v::int. v < d + 400 \<and> v < d + 300 \<and> v < d + 100 \<and> v < d) = (\<lambda>v. v < d)"
    by auto
  show ?thesis
    unfolding labels_def by (simp add: count_loop_five c3 c4 c5 c6)
qed

lemma five_way_split:
  fixes d :: int
  shows "length (filter (\<lambda>v. d + 400 \<le> v) xs)
       + length (filter (\<lambda>v. d + 300 \<le> v \<and> v < d + 400) xs)
       + length (filter (\<lambda>v. d + 100 \<le> v \<and> v < d + 300) xs)
       + length (filter (\<lambda>v. d \<le> v \<and> v < d + 100) xs)
       + length (filter (\<lambda>v. v < d) xs) = length xs"
  by (induction xs) auto

text \<open>
  Claim C3. For every list of outcomes and every difficulty \<open>d\<close> the bucketizer returns
  the five tiers in order, the count of each tier being the number of outcomes that
  satisfy that tier's condition (MAX: \<open>v \<ge> d+400\<close>; MAX-3: \<open>d+300 \<le> v < d+400\<close>;
  MAX-4: \<open>d+100 \<le> v < d+300\<close>; MAX-5: \<open>d \<le> v < d+100\<close>; MAX-6: \<open>v < d\<close>), and the five
  counts sum to the length of the input list.
\<close>

theorem bucketize_partition:
  "map (\<lambda>(k, c, p). (k, c)) (pharmacy_special_probability_by_ranges results d) =
     [(''MAX'', int (length (filter (\<lambda>v. d + 400 \<le> v) results))),
      (''MAX-3'', int (length (filter (\<lambda>v. d + 300 \<le> v \<and> v < d + 400) results))),
      (''MAX-4'', int (length (filter (\<lambda>v. d + 100 \<le> v \<and> v < d + 300) results))),
      (''MAX-5'', int (length (filter (\<lambda>v. d \<le> v \<and> v < d + 100) results))),
      (''MAX-6'', int (length (filter (\<lambda>v. v < d) results)))]
   \<and> sum_list (map (\<lambda>(k, c, p). c) (pharmacy_special_probability_by_ranges results d))
       = int (length results)"
proof -
  have "sum_list (map (\<lambda>(k, c, p). c) (pharmacy_special_probability_by_ranges results d))
       = int (length results)"
    using five_way_split [of d results]
    by (simp add: pharmacy_special_probability_by_ranges_def Let_def bucket_counts)
  then show ?thesis
    by (simp add: pharmacy_special_probability_by_ranges_def Let_def bucket_counts)
qed

text \<open>
  Claim C10. On an empty outcome list the bucketizer does not fail: for every difficulty
  it returns all five tiers with count 0 and probability 0.0.
\<close>

theorem bucketize_empty:
  "pharmacy_special_probability_by_ranges [] d =
     [(''MAX'', 0, Finite 0), (''MAX-3'', 0, Finite 0), (''MAX-4'', 0, Finite 0),
      (''MAX-5'', 0, Finite 0), (''MAX-6'', 0, Finite 0)]"
  by (simp add: pharmacy_special_probability_by_ranges_def Let_def labels_def int_truediv_def
      round_double_zero)








section \<open>The rules model\<close>

lemma int_keys_Cons:
  "int_keys uni ((k, v) # kvs) = (case py_int_of_str uni k of Inr i \<Rightarrow> [i] | Inl e \<Rightarrow> []) @ int_keys uni kvs"
  by (simp add: int_keys_def)

lemma int_dict_keys:
  "int_dict uni kvs acc = Inr m \<Longrightarrow> fst ` set m = fst ` set acc \<union> set (int_keys uni kvs)"
proof (induction kvs arbitrary: acc)
  case Nil
  then show ?case by (simp add: int_keys_def)
next
  case (Cons kv kvs)
  obtain k v where kv: "kv = (k, v)" by (cases kv)
  from Cons.prems obtain k' v' where k': "py_int_of_str uni k = Inr k'" and v': "py_int uni v = Inr v'"
    and rest: "int_dict uni kvs (AList.update k' v' acc) = Inr m"
    by (auto simp: kv pybind_def split: sum.splits)
  from Cons.IH [OF rest] show ?case
    by (simp add: kv int_keys_Cons k' dom_update)
qed

lemma int_dict_distinct:
  "int_dict uni kvs acc = Inr m \<Longrightarrow> distinct (map fst acc) \<Longrightarrow> distinct (map fst m)"
proof (induction kvs arbitrary: acc)
  case Nil
  then show ?case by simp
next
  case (Cons kv kvs)
  obtain k v where kv: "kv = (k, v)" by (cases kv)
  from Cons.prems(1) obtain k' v' where rest: "int_dict uni kvs (AList.update k' v' acc) = Inr m"
    by (auto simp: kv pybind_def split: sum.splits)
  from Cons.IH [OF rest] Cons.prems(2) show ?case
    by (simp add: distinct_update)
qed




lemma section_items_error: "section_items d name = Inl e \<Longrightarrow> e = AttributeError"
  by (auto simp: section_items_def split: option.splits json.splits)

lemma from_dict_Inr:
  assumes "from_dict uni data = Inr r"
  shows "\<exists>d a b c. data = JObj d
     \<and> int_dict uni (section_entries data ''base_difficulty_by_level'') [] = Inr a
     \<and> int_dict uni (section_entries data ''max_potions_by_level'') [] = Inr b
     \<and> int_dict uni (section_entries data ''base_difficulty_by_item_id'') [] = Inr c
     \<and> r = \<lparr>item_ids = sort (map fst c), diff_by_level = a, max_by_level = b,
              diff_by_item_id = c\<rparr>
     \<and> validate r = Inr ()"
proof -
  from assms obtain d where d: "data = JObj d"
    by (cases data) (simp_all add: from_dict_def)
  have se: "section_items d name = Inr items \<Longrightarrow> section_entries data name = items"
    for name items
    by (auto simp: section_items_def section_entries_def d split: option.splits json.splits)
  from assms show ?thesis
    unfolding d from_dict_def
    by (auto simp: pybind_def Let_def d dest!: se split: sum.splits if_splits)
qed

text \<open>
  Claim C7. For every document that rules construction accepts, the derived item ids
  are the ascending sorted set of the integers that the keys of the difficulty-by-item
  section denote; an \<open>item_ids\<close> key in the document changes nothing; and for the test
  document, with difficulty-by-item keys 1001 and 1002, the item ids are \<open>[1001, 1002]\<close>.
\<close>

theorem from_dict_item_ids:
  "(from_dict uni data = Inr r \<longrightarrow>
      item_ids r = sorted_list_of_set
        (set (int_keys uni (section_entries data ''base_difficulty_by_item_id''))))
   \<and> from_dict uni (JObj ((''item_ids'', x) # d)) = from_dict uni (JObj d)
   \<and> (from_dict uni valid_rules_payload = Inr r \<longrightarrow> item_ids r = [1001, 1002])"
proof -
  have A: "item_ids r = sorted_list_of_set
        (set (int_keys uni (section_entries data ''base_difficulty_by_item_id'')))"
    if ok: "from_dict uni data = Inr r"
  proof -
    from from_dict_Inr [OF ok] obtain c where
      c: "int_dict uni (section_entries data ''base_difficulty_by_item_id'') [] = Inr c"
      and ids: "item_ids r = sort (map fst c)"
      by auto
    have dist: "distinct (map fst c)" using int_dict_distinct [OF c] by simp
    have keys: "set (map fst c) = set (int_keys uni (section_entries data ''base_difficulty_by_item_id''))"
      using int_dict_keys [OF c] by simp
    have "sorted_list_of_set (set (map fst c)) = sort (map fst c)"
      using dist sorted_list_of_set_sort_remdups [of "map fst c"]
      by (simp add: distinct_remdups_id)
    then show ?thesis by (simp only: ids keys)
  qed
  have B: "from_dict uni (JObj ((''item_ids'', x) # d)) = from_dict uni (JObj d)"
    by (simp add: from_dict_def section_items_def)
  have C: "item_ids r = [1001, 1002]" if "from_dict uni valid_rules_payload = Inr r"
    using that
    by (auto simp: from_dict_def valid_rules_payload_def section_items_def pybind_def
        py_int_of_str_def py_int_of_ascii_def is_ascii_def int_max_str_digits_def strip_def
        is_space_def nat_of_digits_def is_digit_def digit_val_def
        validate_def MIN_LEVEL_def MAX_LEVEL_def Let_def)
  from A B C show ?thesis by blast
qed

lemmas rules_eval =
  from_dict_def section_items_def pybind_def py_int_of_str_def py_int_of_ascii_def is_ascii_def
  int_max_str_digits_def strip_def is_space_def nat_of_digits_def is_digit_def digit_val_def
  validate_def MIN_LEVEL_def MAX_LEVEL_def Let_def

lemma from_dict_valid_rules_payload:
  "from_dict uni valid_rules_payload =
     Inr \<lparr>item_ids = [1001, 1002], diff_by_level = [(0, 0), (1, 10), (10, 100)],
          max_by_level = [(0, 1), (1, 2), (10, 10)], diff_by_item_id = [(1001, 5), (1002, 15)]\<rparr>"
  by (simp add: valid_rules_payload_def rules_eval)

theorem from_dict_item_ids_witness:
  "from_dict unicode_unread valid_rules_payload =
     Inr \<lparr>item_ids = [1001, 1002], diff_by_level = [(0, 0), (1, 10), (10, 100)],
          max_by_level = [(0, 1), (1, 2), (10, 10)], diff_by_item_id = [(1001, 5), (1002, 15)]\<rparr>
   \<and> [1001, 1002] = sorted_list_of_set
        (set (int_keys unicode_unread (section_entries valid_rules_payload ''base_difficulty_by_item_id'')))"
  using from_dict_item_ids [of unicode_unread valid_rules_payload
      "\<lparr>item_ids = [1001, 1002], diff_by_level = [(0, 0), (1, 10), (10, 100)],
          max_by_level = [(0, 1), (1, 2), (10, 10)], diff_by_item_id = [(1001, 5), (1002, 15)]\<rparr>"]
    from_dict_valid_rules_payload
  by simp












section \<open>Recipe parsing\<close>

text \<open>What \<open>int()\<close> reads from an ASCII string does not depend on the Unicode tables.\<close>

lemma py_int_of_str_ascii: "is_ascii s \<Longrightarrow> py_int_of_str uni s = py_int_of_ascii s"
  by (simp add: py_int_of_str_def)

lemma is_ascii_digits: "list_all is_digit ds \<Longrightarrow> is_ascii ds"
  by (auto simp: is_ascii_def is_digit_def Let_def list_all_iff)

lemma digits_value_all_digits:
  "list_all is_digit ds \<Longrightarrow> digits_value ds acc = Some (digits_fold acc ds)"
proof (induction ds acc rule: digits_value.induct)
  case (1 acc)
  then show ?case by (simp add: digits_fold_def)
next
  case (2 c acc)
  then show ?case by (simp add: digits_fold_def)
next
  case (3 c d ds acc)
  then show ?case by (simp add: digits_fold_def)
qed

lemma dropWhile_none: "\<forall>x \<in> set xs. \<not> P x \<Longrightarrow> dropWhile P xs = xs"
  by (cases xs) simp_all

lemma strip_no_space: "\<forall>c \<in> set s. \<not> is_space c \<Longrightarrow> strip s = s"
  by (simp add: strip_def dropWhile_none)

lemma is_digit_not_special:
  assumes "is_digit c"
  shows "\<not> is_space c" "c \<noteq> CHR ''_''" "c \<noteq> CHR ''+''" "c \<noteq> CHR ''-''" "c \<noteq> CHR '' ''"
  using assms by (auto simp: is_digit_def is_space_def Let_def)

lemma nat_of_digits_all_digits:
  assumes "ds \<noteq> []" "list_all is_digit ds"
  shows "nat_of_digits ds =
     (if length ds \<le> int_max_str_digits then Some (digits_fold 0 ds) else None)"
proof -
  obtain c cs where s: "ds = c # cs" using assms(1) by (cases ds) auto
  from assms(2) have c: "is_digit c" and cs: "list_all is_digit cs" by (simp_all add: s)
  from cs have f: "filter is_digit cs = cs" by (simp add: filter_id_conv list_all_iff)
  have dv: "digits_value cs (digit_val c) = Some (digits_fold (digit_val c) cs)"
    using cs by (rule digits_value_all_digits)
  have df: "digits_fold 0 (c # cs) = digits_fold (digit_val c) cs"
    by (simp add: digits_fold_def)
  show ?thesis
    by (simp add: nat_of_digits_def s c f dv df)
qed

text \<open>
  \<open>int()\<close> of a non-empty string of digits is the number it denotes, leading zeros and
  all, unless the string has more than 4300 digits: then it raises ValueError.
\<close>

lemma py_int_of_ascii_digits:
  assumes "ds \<noteq> []" "list_all is_digit ds"
  shows "py_int_of_ascii ds =
     (if length ds \<le> int_max_str_digits then Inr (int (digits_fold 0 ds)) else Inl ValueError)"
proof -
  obtain c cs where s: "ds = c # cs" using assms(1) by (cases ds) auto
  have all: "\<forall>x \<in> set ds. is_digit x" using assms(2) by (simp add: list_all_iff)
  then have st: "strip ds = ds"
    by (intro strip_no_space) (auto dest: is_digit_not_special)
  from all have c: "c \<noteq> CHR ''-''" "c \<noteq> CHR ''+''"
    by (auto simp: s dest: is_digit_not_special)
  have n: "nat_of_digits (c # cs) =
      (if length (c # cs) \<le> int_max_str_digits then Some (digits_fold 0 (c # cs)) else None)"
    using nat_of_digits_all_digits [OF assms] by (simp only: s)
  show ?thesis
    unfolding py_int_of_ascii_def st Let_def
    unfolding s using c n by simp
qed

lemma py_int_of_str_digits:
  assumes "ds \<noteq> []" "list_all is_digit ds"
  shows "py_int_of_str uni ds =
     (if length ds \<le> int_max_str_digits then Inr (int (digits_fold 0 ds)) else Inl ValueError)"
  using py_int_of_ascii_digits [OF assms] is_ascii_digits [OF assms(2)]
  by (simp only: py_int_of_str_ascii)

lemma digits_value_chars:
  "digits_value cs acc = Some n \<Longrightarrow> \<forall>c \<in> set cs. is_digit c \<or> c = CHR ''_''"
proof (induction cs acc arbitrary: n rule: digits_value.induct)
  case (1 acc)
  then show ?case by simp
next
  case (2 c acc)
  then show ?case by (simp split: if_splits)
next
  case (3 c d ds acc)
  then show ?case by (auto split: if_splits)
qed

lemma nat_of_digits_chars:
  "nat_of_digits s = Some n \<Longrightarrow> \<forall>c \<in> set s. is_digit c \<or> c = CHR ''_''"
  by (cases s) (auto simp: nat_of_digits_def split: if_splits dest: digits_value_chars)

lemma in_dropWhile: "x \<in> set xs \<Longrightarrow> \<not> P x \<Longrightarrow> x \<in> set (dropWhile P xs)"
  by (induction xs) auto

lemma in_strip: "c \<in> set s \<Longrightarrow> \<not> is_space c \<Longrightarrow> c \<in> set (strip s)"
  by (simp add: strip_def in_dropWhile)

lemma is_letter_not_special:
  assumes "is_letter c"
  shows "\<not> is_space c" "\<not> is_digit c" "c \<noteq> CHR ''_''" "c \<noteq> CHR ''+''" "c \<noteq> CHR ''-''"
  using assms by (auto simp: is_letter_def is_digit_def is_space_def Let_def)

lemma py_int_of_ascii_letter:
  assumes "c \<in> set s" "is_letter c"
  shows "py_int_of_ascii s = Inl ValueError"
proof -
  from assms have c: "c \<in> set (strip s)" by (intro in_strip) (auto dest: is_letter_not_special)
  then obtain x xs where t: "strip s = x # xs" by (cases "strip s") auto
  have bad: "nat_of_digits u = None" if "c \<in> set u" for u
  proof (cases "nat_of_digits u")
    case None
    then show ?thesis .
  next
    case (Some n)
    from nat_of_digits_chars [OF Some] that assms(2) show ?thesis
      by (auto dest: is_letter_not_special)
  qed
  have "c \<in> set xs" if "x = CHR ''-'' \<or> x = CHR ''+''"
    using that c assms(2) by (auto simp: t dest: is_letter_not_special)
  then show ?thesis
    using c bad [of xs] bad [of "x # xs"]
    by (auto simp: py_int_of_ascii_def Let_def t)
qed

lemma py_int_of_str_letter:
  assumes "c \<in> set s" "is_letter c" "is_ascii s"
  shows "py_int_of_str uni s = Inl ValueError"
  using py_int_of_ascii_letter [OF assms(1,2)] assms(3) by (simp only: py_int_of_str_ascii)

lemma split_on_nonempty: "split_on sep s \<noteq> []"
  by (induction s) (auto split: list.splits)

lemma split_on_no_sep: "sep \<notin> set s \<Longrightarrow> split_on sep s = [s]"
  by (induction s) auto

lemma split_on_append:
  "sep \<notin> set s \<Longrightarrow> split_on sep (s @ sep # t) = s # split_on sep t"
proof (induction s)
  case Nil
  then show ?case by simp
next
  case (Cons c s)
  then show ?case by auto
qed

lemma split_on_join:
  "xs \<noteq> [] \<Longrightarrow> \<forall>x \<in> set xs. CHR ''+'' \<notin> set x \<Longrightarrow> split_on CHR ''+'' (join_plus xs) = xs"
proof (induction xs rule: join_plus.induct)
  case 1
  then show ?case by simp
next
  case (2 s)
  then show ?case by (simp add: split_on_no_sep)
next
  case (3 s t ts)
  then show ?case by (simp add: split_on_append)
qed

lemma filter_join:
  "filter (\<lambda>c. c \<noteq> CHR '' '') (join_plus xs) = join_plus (map (filter (\<lambda>c. c \<noteq> CHR '' '')) xs)"
  by (induction xs rule: join_plus.induct) simp_all

lemma split_first_two:
  "sep \<notin> set a \<Longrightarrow> split_first sep (a @ sep # b) = [a, b]"
proof -
  assume a: "sep \<notin> set a"
  then have "takeWhile (\<lambda>c. c \<noteq> sep) (a @ sep # b) = a"
    by (induction a) auto
  moreover from a have "dropWhile (\<lambda>c. c \<noteq> sep) (a @ sep # b) = sep # b"
    by (induction a) auto
  ultimately show ?thesis by (simp add: split_first_def)
qed

lemma parse_parts_append:
  "parse_parts uni (part # parts) out = parse_parts uni parts (out @ parse_parts uni [part] [])"
  by (auto split: list.splits sum.splits)

lemma parse_parts_concat:
  "parse_parts uni parts out = out @ concat (map (\<lambda>p. parse_parts uni [p] []) parts)"
proof (induction parts arbitrary: out)
  case Nil
  then show ?case by simp
next
  case (Cons p ps)
  have "parse_parts uni (p # ps) out = parse_parts uni ps (out @ parse_parts uni [p] [])"
    by (rule parse_parts_append)
  also have "\<dots> = (out @ parse_parts uni [p] []) @ concat (map (\<lambda>p. parse_parts uni [p] []) ps)"
    by (rule Cons.IH)
  finally show ?case by simp
qed

lemma digit_string_chars:
  assumes "digit_string ds" "c \<in> set ds"
  shows "c \<noteq> CHR ''_''" "c \<noteq> CHR ''+''" "c \<noteq> CHR '' ''"
  using assms by (auto simp: digit_string_def list_all_iff dest: is_digit_not_special)

lemma part_well_formed:
  assumes "digit_string qty" "digit_string mid"
  shows "parse_parts uni [qty @ ''_'' @ mid] [] = pairs_of (WellFormed qty mid)"
proof -
  have "CHR ''_'' \<notin> set qty" using digit_string_chars(1) [OF assms(1)] by blast
  then have sf: "split_first CHR ''_'' (qty @ CHR ''_'' # mid) = [qty, mid]"
    by (rule split_first_two)
  have q: "py_int_of_str uni qty =
      (if length qty \<le> int_max_str_digits then Inr (int (digits_fold 0 qty)) else Inl ValueError)"
    using assms(1) by (intro py_int_of_str_digits) (simp_all add: digit_string_def)
  have m: "py_int_of_str uni mid =
      (if length mid \<le> int_max_str_digits then Inr (int (digits_fold 0 mid)) else Inl ValueError)"
    using assms(2) by (intro py_int_of_str_digits) (simp_all add: digit_string_def)
  show ?thesis
    by (simp add: sf q m)
qed

lemma part_malformed:
  assumes "CHR ''_'' \<notin> set s \<or> (is_ascii s \<and> list_ex is_letter s)"
  shows "parse_parts uni [filter (\<lambda>c. c \<noteq> CHR '' '') s] [] = []"
proof -
  define p where "p = filter (\<lambda>c. c \<noteq> CHR '' '') s"
  show ?thesis
  proof (cases "CHR ''_'' \<in> set p")
    case False
    then show ?thesis
      unfolding p_def [symmetric] by (simp add: split_first_def)
  next
    case True
    then have "CHR ''_'' \<in> set s" by (simp add: p_def)
    with assms obtain c where c: "c \<in> set s" "is_letter c" and asc: "is_ascii s"
      by (auto simp: list_ex_iff)
    then have cp: "c \<in> set p" by (auto simp: p_def is_letter_def)
    define a where "a = takeWhile (\<lambda>c. c \<noteq> CHR ''_'') p"
    define b where "b = tl (dropWhile (\<lambda>c. c \<noteq> CHR ''_'') p)"
    have sf: "split_first CHR ''_'' p = [a, b]"
      using True by (simp add: split_first_def a_def b_def)
    have "p = a @ dropWhile (\<lambda>c. c \<noteq> CHR ''_'') p" by (simp add: a_def)
    moreover have "dropWhile (\<lambda>c. c \<noteq> CHR ''_'') p = CHR ''_'' # b"
    proof -
      have dne: "dropWhile (\<lambda>c. c \<noteq> CHR ''_'') p \<noteq> []"
        using True by (auto simp: dropWhile_eq_Nil_conv)
      from hd_dropWhile [OF dne] have "hd (dropWhile (\<lambda>c. c \<noteq> CHR ''_'') p) = CHR ''_''"
        by simp
      with dne show ?thesis
        by (cases "dropWhile (\<lambda>c. c \<noteq> CHR ''_'') p") (simp_all add: b_def)
    qed
    ultimately have pab: "p = a @ CHR ''_'' # b" by simp
    have "set p \<subseteq> set s" by (auto simp: p_def)
    moreover have "set a \<subseteq> set p" "set b \<subseteq> set p"
      using pab by (metis Un_upper1 set_append, metis Un_upper2 set_append set_subset_Cons subset_trans)
    ultimately have ab: "is_ascii a" "is_ascii b"
      using asc by (auto simp: is_ascii_def list_all_iff)
    from pab cp c(2) have "c \<in> set a \<or> c \<in> set b"
      by (metis Un_iff is_letter_not_special(3) set_ConsD set_append)
    then have "py_int_of_str uni a = Inl ValueError \<or> py_int_of_str uni b = Inl ValueError"
      using c(2) ab by (auto intro: py_int_of_str_letter)
    then show ?thesis
      unfolding p_def [symmetric]
      by (auto simp: sf split: sum.splits)
  qed
qed

lemma filter_well_formed:
  assumes "digit_string qty" "digit_string mid"
  shows "filter (\<lambda>c. c \<noteq> CHR '' '') (qty @ ''_'' @ mid) = qty @ ''_'' @ mid"
  using digit_string_chars(3) [OF assms(1)] digit_string_chars(3) [OF assms(2)]
  by (auto simp: filter_id_conv)

lemma admissible_part:
  assumes "admissible seg"
  shows "parse_parts uni [filter (\<lambda>c. c \<noteq> CHR '' '') (render seg)] [] = pairs_of seg"
    and "CHR ''+'' \<notin> set (filter (\<lambda>c. c \<noteq> CHR '' '') (render seg))"
proof -
  show "parse_parts uni [filter (\<lambda>c. c \<noteq> CHR '' '') (render seg)] [] = pairs_of seg"
  proof (cases seg)
    case (WellFormed qty mid)
    with assms have d: "digit_string qty" "digit_string mid" by simp_all
    show ?thesis
      using part_well_formed [OF d, of uni] filter_well_formed [OF d]
      by (simp only: WellFormed render.simps)
  next
    case (Malformed s)
    with assms show ?thesis
      using part_malformed [of s] by simp
  qed
  show "CHR ''+'' \<notin> set (filter (\<lambda>c. c \<noteq> CHR '' '') (render seg))"
  proof (cases seg)
    case (WellFormed qty mid)
    with assms have d: "digit_string qty" "digit_string mid" by simp_all
    show ?thesis
      using digit_string_chars(2) [OF d(1)] digit_string_chars(2) [OF d(2)]
      by (auto simp: WellFormed)
  next
    case (Malformed s)
    with assms show ?thesis by simp
  qed
qed

lemma parse_recipe_str:
  "parse_recipe uni (JStr s) = parse_parts uni (split_on CHR ''+'' (filter (\<lambda>c. c \<noteq> CHR '' '') s)) []"
  by (simp add: parse_recipe_def split_first_def)

lemma parse_recipe_admissible:
  assumes "\<forall>seg \<in> set segs. admissible seg"
  shows "parse_recipe uni (JStr (join_plus (map render segs))) = concat (map pairs_of segs)"
proof (cases "segs = []")
  case True
  then show ?thesis by (simp add: parse_recipe_def)
next
  case False
  define parts where "parts = map (\<lambda>seg. filter (\<lambda>c. c \<noteq> CHR '' '') (render seg)) segs"
  have ne: "parts \<noteq> []" using False by (simp add: parts_def)
  have nosep: "\<forall>x \<in> set parts. CHR ''+'' \<notin> set x"
    using assms admissible_part(2) unfolding parts_def by (simp only: set_map) blast
  have "filter (\<lambda>c. c \<noteq> CHR '' '') (join_plus (map render segs)) = join_plus parts"
    by (simp add: filter_join parts_def comp_def)
  then have "parse_recipe uni (JStr (join_plus (map render segs)))
      = parse_parts uni (split_on CHR ''+'' (join_plus parts)) []"
    by (simp only: parse_recipe_str)
  also have "\<dots> = parse_parts uni parts []"
    by (simp only: split_on_join [OF ne nosep])
  also have "\<dots> = concat (map (\<lambda>p. parse_parts uni [p] []) parts)"
    using parse_parts_concat [of uni parts "[]"] by simp
  also have "\<dots> = concat (map pairs_of segs)"
  proof -
    have "map (\<lambda>p. parse_parts uni [p] []) parts = map pairs_of segs"
      unfolding parts_def map_map comp_def
    proof (rule map_cong [OF refl])
      fix seg
      assume "seg \<in> set segs"
      with assms have "admissible seg" by blast
      then show "parse_parts uni [filter (\<lambda>c. c \<noteq> CHR '' '') (render seg)] [] = pairs_of seg"
        by (rule admissible_part(1))
    qed
    then show ?thesis by (simp only:)
  qed
  finally show ?thesis .
qed

text \<open>
  A number of 4301 digits is beyond what \<open>int()\<close> converts, so its segment is skipped.
\<close>

lemma parse_recipe_long_number:
  "parse_recipe uni (JStr (''1_'' @ replicate 4301 (CHR ''9''))) = []"
proof -
  have a: "\<forall>seg \<in> set [WellFormed ''1'' (replicate 4301 (CHR ''9''))]. admissible seg"
    by (simp add: digit_string_def is_digit_def list_all_iff)
  from parse_recipe_admissible [OF a, of uni] show ?thesis
    by (simp add: int_max_str_digits_def)
qed





section \<open>Production cost\<close>











end
